theory Spec2Isabelle
  imports Main "HOL-Library.Word" "HOL-Library.AList"
begin

section \<open>A TTL cache over a concurrent map (package cache, file cache.go)\<close>

text \<open>
  The Go package keeps a \<^verbatim>\<open>haxmap.Map[T, *CachedItem[V]]\<close>, a time-to-live and
  a channel that stops the background goroutine. The embedding keeps three things
  apart, as the program does:
  \<^item> the \<^verbatim>\<open>CachedItem\<close> objects, which live on the Go heap and are reached through
    pointers (a list of objects; a pointer is an index into it);
  \<^item> the map from keys to such pointers (an association list);
  \<^item> the goroutine started by \<^verbatim>\<open>NewCache\<close>, its ticker and the stop channel.
  Each call of an exported method is one atomic step. A pass of \<^verbatim>\<open>cleanup\<close> in the
  goroutine is not: every call of its visitor is a step of its own, and calls of the
  exported methods can fall between two of them, as nothing in the program keeps
  them apart. \<^verbatim>\<open>time.Now()\<close> is an argument of the step that reads it.
\<close>

subsection \<open>Time\<close>

text \<open>
  A \<^verbatim>\<open>time.Time\<close> is an instant in nanoseconds, a \<^verbatim>\<open>time.Duration\<close> is an
  \<^verbatim>\<open>int64\<close> count of nanoseconds, compared as a signed number. \<^verbatim>\<open>Time.Sub\<close>
  returns the difference, and the largest (smallest) duration when the difference
  does not fit.
\<close>

type_synonym Time = int
type_synonym Duration = "64 word"

definition maxDuration :: int where
  "maxDuration = 2 ^ 63 - 1"

definition minDuration :: int where
  "minDuration = - (2 ^ 63)"

definition time_Sub :: "Time \<Rightarrow> Time \<Rightarrow> Duration" where
  "time_Sub t u =
     (let d = t - u
      in if maxDuration < d then word_of_int maxDuration
         else if d < minDuration then word_of_int minDuration
         else word_of_int d)"

subsection \<open>Data\<close>

datatype panic = CloseOfClosedChannel | NonPositiveInterval | NilDereference

record 'v CachedItem =
  Value :: 'v
  CreatedTime :: Time

type_synonym ptr = nat

datatype chan = Open | Closed

record ('k, 'v) Cache =
  cache :: "('k \<times> ptr) list"
  ttl :: Duration
  stopCleanup :: chan

text \<open>
  The goroutine running \<^verbatim>\<open>startCleanupRoutine\<close>: launched by the \<^verbatim>\<open>go\<close> statement
  and not yet begun, waiting at the \<^verbatim>\<open>select\<close> with its ticker created, inside
  \<^verbatim>\<open>cleanup\<close>, or returned. Inside \<^verbatim>\<open>cleanup\<close> it holds the time it captured and the
  entries that its traversal of the map has still to visit.
\<close>

datatype 'k routine = Spawned | Selecting | Sweeping Time "('k \<times> ptr) list" | Returned

text \<open>
  The running program around one cache: the fields of the \<^verbatim>\<open>Cache\<close> struct, the
  \<^verbatim>\<open>CachedItem\<close> objects allocated so far, the state of the cleanup goroutine, and
  whether a tick is waiting in the ticker's channel (which buffers one tick).
\<close>

record ('k, 'v) program = "('k, 'v) Cache" +
  heap :: "'v CachedItem list"
  sweeper :: "'k routine"
  tickerC :: bool

text \<open>Go's zero value of the value type is the \<open>default\<close> of its HOL type.\<close>

instantiation int :: default
begin
definition default_int :: int where "default_int = 0"
instance ..
end

instantiation list :: (type) default
begin
definition default_list :: "'a list" where "default_list = []"
instance ..
end

subsection \<open>Pointers to items\<close>

text \<open>\<^verbatim>\<open>&CachedItem[V]{...}\<close> allocates a new object and yields a pointer to it.\<close>

definition new_item :: "'v CachedItem \<Rightarrow> ('k, 'v) program \<Rightarrow> ptr \<times> ('k, 'v) program" where
  "new_item it s = (length (heap s), s\<lparr>heap := heap s @ [it]\<rparr>)"

text \<open>
  Reading a field through a pointer. A pointer that addresses no object stands for
  \<^verbatim>\<open>nil\<close>, and reading through it panics.
\<close>

definition deref :: "('k, 'v) program \<Rightarrow> ptr \<Rightarrow> panic + 'v CachedItem" where
  "deref s p = (if p < length (heap s) then Inr (heap s ! p) else Inl NilDereference)"

subsection \<open>The concurrent map\<close>

text \<open>
  Modelled from the spec: the map is the library \<^verbatim>\<open>github.com/alphadose/haxmap\<close>,
  which is imported by cache.go and is not among the sources. Its four operations
  follow the contract of the specification's section 6: \<^verbatim>\<open>Set\<close> replaces or inserts,
  \<^verbatim>\<open>Get\<close> reports presence, \<^verbatim>\<open>Del\<close> removes and does nothing for an absent key,
  \<^verbatim>\<open>ForEach\<close> calls the visitor on the entries and stops early when the visitor
  returns false. With no concurrent caller the entries visited are those present
  when the traversal starts. The order of the list is the order of the traversal;
  the library's own order depends on the hashes of the keys, and the properties
  below are proved for every list.
\<close>

definition hax_New :: "('k \<times> ptr) list" where
  "hax_New = []"

definition hax_Set :: "'k \<Rightarrow> ptr \<Rightarrow> ('k \<times> ptr) list \<Rightarrow> ('k \<times> ptr) list" where
  "hax_Set k p m = AList.update k p m"

definition hax_Get :: "('k \<times> ptr) list \<Rightarrow> 'k \<Rightarrow> ptr option" where
  "hax_Get m k = map_of m k"

definition hax_Del :: "'k \<Rightarrow> ('k \<times> ptr) list \<Rightarrow> ('k \<times> ptr) list" where
  "hax_Del k m = AList.delete k m"

type_synonym ('k, 'v) visitor =
  "'k \<Rightarrow> ptr \<Rightarrow> ('k, 'v) program \<Rightarrow> panic + (bool \<times> ('k, 'v) program)"

fun hax_ForEach_from ::
  "('k, 'v) visitor \<Rightarrow> ('k \<times> ptr) list \<Rightarrow> ('k, 'v) program \<Rightarrow> panic + ('k, 'v) program" where
  "hax_ForEach_from f [] s = Inr s"
| "hax_ForEach_from f ((k, p) # rest) s =
     (case f k p s of
        Inl e \<Rightarrow> Inl e
      | Inr (continue, s') \<Rightarrow> if continue then hax_ForEach_from f rest s' else Inr s')"

definition hax_ForEach :: "('k, 'v) visitor \<Rightarrow> ('k, 'v) program \<Rightarrow> panic + ('k, 'v) program" where
  "hax_ForEach f s = hax_ForEach_from f (cache s) s"

subsection \<open>The cache\<close>

definition NewCache :: "Duration \<Rightarrow> ('k, 'v) program" where
  "NewCache d =
     \<lparr>cache = hax_New, ttl = d, stopCleanup = Open,
      heap = [], sweeper = Spawned, tickerC = False\<rparr>"

definition Set :: "Time \<Rightarrow> 'k \<Rightarrow> 'v \<Rightarrow> ('k, 'v) program \<Rightarrow> ('k, 'v) program" where
  "Set now key val s =
     (let (p, s') = new_item \<lparr>Value = val, CreatedTime = now\<rparr> s
      in s'\<lparr>cache := hax_Set key p (cache s')\<rparr>)"

definition Get :: "'k \<Rightarrow> ('k, 'v::default) program \<Rightarrow> panic + ('v \<times> bool)" where
  "Get key s =
     (case hax_Get (cache s) key of
        None \<Rightarrow> Inr (default, False)
      | Some item \<Rightarrow>
          (case deref s item of
             Inl e \<Rightarrow> Inl e
           | Inr it \<Rightarrow> Inr (Value it, True)))"

definition Delete :: "'k \<Rightarrow> ('k, 'v) program \<Rightarrow> ('k, 'v) program" where
  "Delete key s = s\<lparr>cache := hax_Del key (cache s)\<rparr>"

text \<open>The function literal that \<^verbatim>\<open>Clear\<close> passes to \<^verbatim>\<open>ForEach\<close>.\<close>

definition Clear_visit :: "('k, 'v) visitor" where
  "Clear_visit key val s = Inr (True, s\<lparr>cache := hax_Del key (cache s)\<rparr>)"

definition Clear :: "('k, 'v) program \<Rightarrow> panic + ('k, 'v) program" where
  "Clear s = hax_ForEach Clear_visit s"

text \<open>
  The function literal that \<^verbatim>\<open>cleanup\<close> passes to \<^verbatim>\<open>ForEach\<close>; \<open>now\<close> is the
  time captured before the traversal.
\<close>

definition cleanup_visit :: "Time \<Rightarrow> ('k, 'v) visitor" where
  "cleanup_visit now key val s =
     (case deref s val of
        Inl e \<Rightarrow> Inl e
      | Inr it \<Rightarrow>
          Inr (True,
               if ttl s <s time_Sub now (CreatedTime it)
               then s\<lparr>cache := hax_Del key (cache s)\<rparr>
               else s))"

definition cleanup :: "Time \<Rightarrow> ('k, 'v) program \<Rightarrow> panic + ('k, 'v) program" where
  "cleanup now s = hax_ForEach (cleanup_visit now) s"

definition StopCleanup :: "('k, 'v) program \<Rightarrow> panic + ('k, 'v) program" where
  "StopCleanup s =
     (if stopCleanup s = Closed then Inl CloseOfClosedChannel
      else Inr (s\<lparr>stopCleanup := Closed\<rparr>))"

subsection \<open>The cleanup goroutine\<close>

text \<open>
  \<^verbatim>\<open>startCleanupRoutine\<close> runs in a goroutine of its own. It first creates the ticker:
  \<^verbatim>\<open>time.NewTicker\<close> panics for a duration that is not positive. Then it waits at the
  \<^verbatim>\<open>select\<close>, each time for a tick or for the stop channel to be closed. On a tick
  it calls \<^verbatim>\<open>cleanup\<close> and comes back to the \<^verbatim>\<open>select\<close> when \<^verbatim>\<open>cleanup\<close> returns.
\<close>

definition startCleanupRoutine_begin :: "('k, 'v) program \<Rightarrow> panic + ('k, 'v) program" where
  "startCleanupRoutine_begin s =
     (if sint (ttl s) \<le> 0 then Inl NonPositiveInterval
      else Inr (s\<lparr>sweeper := Selecting\<rparr>))"

text \<open>
  The two communications of the \<^verbatim>\<open>select\<close>. A receive from the ticker can proceed
  when a tick is waiting, a receive from the stop channel when it is closed. When
  both can proceed, Go's \<^verbatim>\<open>select\<close> takes either one. The tick branch carries the
  time that \<^verbatim>\<open>cleanup\<close> reads.
\<close>

datatype comm = FromTicker Time | FromStop

fun can_proceed :: "comm \<Rightarrow> ('k, 'v) program \<Rightarrow> bool" where
  "can_proceed (FromTicker now) s = tickerC s"
| "can_proceed FromStop s = (stopCleanup s = Closed)"

text \<open>
  \<^verbatim>\<open>cleanup\<close> as the goroutine runs it, beside the calls of the exported methods. It
  enters by reading the time and starting the traversal on the entries of the map.
  Then each step is one call of the visitor of \<^verbatim>\<open>cleanup\<close> on the next entry; when
  no entry is left, or the visitor returns false, \<^verbatim>\<open>cleanup\<close> returns and the goroutine
  is back at its \<^verbatim>\<open>select\<close>. With no other step between them these steps do what the
  function \<open>cleanup\<close> above does (lemma \<open>run_pass_alone\<close>).
\<close>

definition cleanup_enter :: "Time \<Rightarrow> ('k, 'v) program \<Rightarrow> ('k, 'v) program" where
  "cleanup_enter now s = s\<lparr>sweeper := Sweeping now (cache s)\<rparr>"

fun cleanup_resume :: "'k routine \<Rightarrow> ('k, 'v) program \<Rightarrow> panic + ('k, 'v) program" where
  "cleanup_resume (Sweeping now []) s = Inr (s\<lparr>sweeper := Selecting\<rparr>)"
| "cleanup_resume (Sweeping now ((key, val) # rest)) s =
     (case cleanup_visit now key val s of
        Inl e \<Rightarrow> Inl e
      | Inr (continue, s') \<Rightarrow>
          Inr (s'\<lparr>sweeper := (if continue then Sweeping now rest else Selecting)\<rparr>))"
| "cleanup_resume r s = Inr s"

fun startCleanupRoutine_select :: "comm \<Rightarrow> ('k, 'v) program \<Rightarrow> panic + ('k, 'v) program" where
  "startCleanupRoutine_select (FromTicker now) s = Inr (cleanup_enter now (s\<lparr>tickerC := False\<rparr>))"
| "startCleanupRoutine_select FromStop s = Inr (s\<lparr>sweeper := Returned\<rparr>)"

subsection \<open>Steps of the program\<close>

text \<open>
  What can happen next: a call of an exported method, the goroutine beginning, the
  goroutine taking a branch of its \<^verbatim>\<open>select\<close>, the goroutine going one step on
  inside \<^verbatim>\<open>cleanup\<close>, or the ticker sending a tick. The ticker runs from its creation
  until the goroutine returns, also while the goroutine is inside \<^verbatim>\<open>cleanup\<close>. A step
  that cannot be taken in a state (the goroutine is blocked or elsewhere, or has
  returned and stopped its ticker) leaves the state as it is. A panic ends the
  program. \<^verbatim>\<open>Clear\<close> is one step: what is proved of it is for a call with no
  concurrent writer.
\<close>

datatype ('k, 'v) event =
    Call_Set Time 'k 'v
  | Call_Get 'k
  | Call_Delete 'k
  | Call_Clear
  | Call_StopCleanup
  | Routine_begin
  | Routine_select comm
  | Routine_cleanup
  | Ticker_fires

fun fire :: "('k, 'v::default) event \<Rightarrow> ('k, 'v) program \<Rightarrow> panic + ('k, 'v) program" where
  "fire (Call_Set now key val) s = Inr (Set now key val s)"
| "fire (Call_Get key) s = (case Get key s of Inl e \<Rightarrow> Inl e | Inr r \<Rightarrow> Inr s)"
| "fire (Call_Delete key) s = Inr (Delete key s)"
| "fire Call_Clear s = Clear s"
| "fire Call_StopCleanup s = StopCleanup s"
| "fire Routine_begin s =
     (if sweeper s = Spawned then startCleanupRoutine_begin s else Inr s)"
| "fire (Routine_select c) s =
     (if sweeper s = Selecting \<and> can_proceed c s then startCleanupRoutine_select c s
      else Inr s)"
| "fire Routine_cleanup s = cleanup_resume (sweeper s) s"
| "fire Ticker_fires s =
     (if sweeper s = Spawned \<or> sweeper s = Returned then Inr s
      else Inr (s\<lparr>tickerC := True\<rparr>))"

fun run :: "('k, 'v::default) event list \<Rightarrow> ('k, 'v) program \<Rightarrow> panic + ('k, 'v) program" where
  "run [] s = Inr s"
| "run (e # es) s = (case fire e s of Inl x \<Rightarrow> Inl x | Inr s' \<Rightarrow> run es s')"

subsection \<open>Well-formed states\<close>

text \<open>
  The map holds each key once, and every pointer in it addresses an object.
\<close>

definition wf :: "('k, 'v) program \<Rightarrow> bool" where
  "wf s \<longleftrightarrow> distinct (map fst (cache s)) \<and> list_all (\<lambda>(k, p). p < length (heap s)) (cache s)"

text \<open>An entry of the cache: the key is bound to a pointer, and the pointer to an object.\<close>

definition entry :: "('k, 'v) program \<Rightarrow> 'k \<Rightarrow> ptr \<Rightarrow> 'v CachedItem \<Rightarrow> bool" where
  "entry s k p it \<longleftrightarrow> hax_Get (cache s) k = Some p \<and> deref s p = Inr it"

text \<open>The test of \<^verbatim>\<open>cleanup\<close>: \<^verbatim>\<open>now.Sub(value.CreatedTime) > c.ttl\<close>.\<close>

definition expired :: "Duration \<Rightarrow> Time \<Rightarrow> 'v CachedItem \<Rightarrow> bool" where
  "expired d now it \<longleftrightarrow> d <s time_Sub now (CreatedTime it)"

subsection \<open>Steps that concern a key\<close>

text \<open>
  A step touches the entry of key \<open>k\<close> when it is a \<^verbatim>\<open>Set\<close> or \<^verbatim>\<open>Delete\<close> of \<open>k\<close>
  or a \<^verbatim>\<open>Clear\<close>. A step leaves an entry of \<open>k\<close> written at time \<open>t\<close> under a ttl
  of \<open>d\<close> undisturbed when it is the goroutine taking a tick at a time at which
  that entry is not older than \<open>d\<close>, or another step that does not touch \<open>k\<close>.
\<close>

fun touches :: "'k \<Rightarrow> ('k, 'v) event \<Rightarrow> bool" where
  "touches k (Call_Set now key val) = (key = k)"
| "touches k (Call_Delete key) = (key = k)"
| "touches k Call_Clear = True"
| "touches k e = False"

fun undisturbed :: "'k \<Rightarrow> Time \<Rightarrow> Duration \<Rightarrow> ('k, 'v) event \<Rightarrow> bool" where
  "undisturbed k t d (Routine_select (FromTicker now)) = (\<not> d <s time_Sub now t)"
| "undisturbed k t d e = (\<not> touches k e)"

text \<open>
  A pass that is under way threatens key \<open>k\<close> when it has still to visit an entry
  of \<open>k\<close> whose object its visitor will find older than the ttl (or will fail to
  read): that visit is going to remove whatever entry \<open>k\<close> has by then.
\<close>

definition threatened :: "'k \<Rightarrow> ('k, 'v) program \<Rightarrow> bool" where
  "threatened k s =
     (case sweeper s of
        Sweeping now rest \<Rightarrow>
          list_ex (\<lambda>(key, val). key = k \<and>
            (case deref s val of Inl e \<Rightarrow> True | Inr it \<Rightarrow> ttl s <s time_Sub now (CreatedTime it)))
            rest
      | _ \<Rightarrow> False)"

subsection \<open>Example states\<close>

text \<open>
  A cache with a ttl of 50 in which key 1 was set to the string a at time 0. The same
  after \<^verbatim>\<open>StopCleanup\<close>, with the goroutine at its \<^verbatim>\<open>select\<close> and a tick waiting. The
  same after \<^verbatim>\<open>StopCleanup\<close>, with the goroutine inside the pass it entered at time
  60.
\<close>

definition one_entry :: "(int, string) program" where
  "one_entry = Set 0 1 ''a'' (NewCache 50)"

definition stopped_with_tick :: "(int, string) program" where
  "stopped_with_tick = one_entry\<lparr>stopCleanup := Closed, sweeper := Selecting, tickerC := True\<rparr>"

definition stopped_in_pass :: "(int, string) program" where
  "stopped_in_pass = one_entry\<lparr>stopCleanup := Closed, sweeper := Sweeping 60 [(1, 0)]\<rparr>"

section \<open>Properties\<close>

subsection \<open>Auxiliary facts\<close>

lemmas model_defs =
  NewCache_def Set_def Get_def Delete_def new_item_def deref_def
  hax_New_def hax_Set_def hax_Get_def hax_Del_def wf_def entry_def expired_def
  StopCleanup_def startCleanupRoutine_begin_def

lemma Clear_from:
  "hax_ForEach_from Clear_visit xs s =
     Inr (s\<lparr>cache := filter (\<lambda>(k, p). k \<notin> fst ` set xs) (cache s)\<rparr>)"
proof (induction xs arbitrary: s)
  case Nil
  show ?case by (simp add: case_prod_unfold)
next
  case (Cons x xs)
  obtain k p where x: "x = (k, p)" by (cases x)
  have "filter (\<lambda>(k', p). k' \<notin> fst ` set xs) (hax_Del k (cache s)) =
        filter (\<lambda>(k', p). k' \<notin> fst ` set (x # xs)) (cache s)"
    by (auto simp: hax_Del_def AList.delete_eq x intro!: filter_cong)
  moreover have "Clear_visit k p s = Inr (True, s\<lparr>cache := hax_Del k (cache s)\<rparr>)"
    by (simp add: Clear_visit_def)
  ultimately show ?case
    by (simp add: x Cons.IH)
qed

lemma Clear_result: "Clear s = Inr (s\<lparr>cache := []\<rparr>)"
proof -
  have "filter (\<lambda>(k, p). k \<notin> fst ` set (cache s)) (cache s) = []"
    by (force simp: filter_empty_conv)
  then show ?thesis
    by (simp add: Clear_def hax_ForEach_def Clear_from)
qed

lemma cleanup_from:
  "list_all (\<lambda>(k, p). p < length (heap s)) xs \<Longrightarrow>
   hax_ForEach_from (cleanup_visit now) xs s =
     Inr (s\<lparr>cache :=
            filter (\<lambda>(k, p). k \<notin> fst ` set (filter (\<lambda>(k, p). expired (ttl s) now (heap s ! p)) xs))
              (cache s)\<rparr>)"
proof (induction xs arbitrary: s)
  case Nil
  show ?case by (simp add: case_prod_unfold)
next
  case (Cons x xs)
  obtain k p where x: "x = (k, p)" by (cases x)
  from Cons.prems have p: "p < length (heap s)"
    and rest: "list_all (\<lambda>(k, p). p < length (heap s)) xs"
    by (simp_all add: x)
  show ?case
  proof (cases "expired (ttl s) now (heap s ! p)")
    case True
    let ?s = "s\<lparr>cache := hax_Del k (cache s)\<rparr>"
    have step: "cleanup_visit now k p s = Inr (True, ?s)"
      using True p by (simp add: cleanup_visit_def deref_def expired_def)
    have rest': "list_all (\<lambda>(k, p). p < length (heap ?s)) xs"
      using rest by simp
    have "filter (\<lambda>(k', q). k' \<notin> fst ` set (filter (\<lambda>(k, p). expired (ttl s) now (heap s ! p)) xs))
            (hax_Del k (cache s)) =
          filter (\<lambda>(k', q). k' \<notin> fst ` set (filter (\<lambda>(k, p). expired (ttl s) now (heap s ! p)) (x # xs)))
            (cache s)"
      using True by (auto simp: hax_Del_def AList.delete_eq x intro!: filter_cong)
    then show ?thesis
      using Cons.IH [OF rest'] step by (simp add: x)
  next
    case False
    have step: "cleanup_visit now k p s = Inr (True, s)"
      using False p by (simp add: cleanup_visit_def deref_def expired_def)
    show ?thesis
      using Cons.IH [OF rest] step False by (simp add: x)
  qed
qed

lemma distinct_keys_filter:
  assumes "distinct (map fst xs)"
  shows "filter (\<lambda>(k, p). k \<notin> fst ` set (filter E xs)) xs = filter (\<lambda>x. \<not> E x) xs"
proof (rule filter_cong [OF refl])
  fix x assume x: "x \<in> set xs"
  obtain k p where kp: "x = (k, p)" by (cases x)
  have "k \<in> fst ` set (filter E xs) \<longleftrightarrow> E (k, p)"
  proof
    assume "k \<in> fst ` set (filter E xs)"
    then obtain q where q: "(k, q) \<in> set xs" "E (k, q)" by auto
    from assms q(1) x have "q = p"
      unfolding kp by (meson eq_key_imp_eq_value)
    with q show "E (k, p)" by simp
  next
    assume "E (k, p)"
    with x show "k \<in> fst ` set (filter E xs)"
      unfolding kp by force
  qed
  then show "(case x of (k, p) \<Rightarrow> k \<notin> fst ` set (filter E xs)) = (\<not> E x)"
    by (simp add: kp)
qed

lemma cleanup_result:
  assumes "wf s"
  shows "cleanup now s =
    Inr (s\<lparr>cache := filter (\<lambda>(k, p). \<not> expired (ttl s) now (heap s ! p)) (cache s)\<rparr>)"
proof -
  from assms have d: "distinct (map fst (cache s))"
    and v: "list_all (\<lambda>(k, p). p < length (heap s)) (cache s)"
    by (simp_all add: wf_def)
  have "filter (\<lambda>(k, p). k \<notin> fst ` set (filter (\<lambda>(k, p). expired (ttl s) now (heap s ! p)) (cache s))) (cache s)
        = filter (\<lambda>x. \<not> (\<lambda>(k, p). expired (ttl s) now (heap s ! p)) x) (cache s)"
    by (rule distinct_keys_filter [OF d])
  also have "\<dots> = filter (\<lambda>(k, p). \<not> expired (ttl s) now (heap s ! p)) (cache s)"
    by (simp add: case_prod_unfold)
  finally show ?thesis
    by (simp add: cleanup_def hax_ForEach_def cleanup_from [OF v])
qed

lemma map_of_filter_distinct:
  assumes "distinct (map fst xs)"
  shows "map_of (filter P xs) k =
           (case map_of xs k of None \<Rightarrow> None | Some p \<Rightarrow> if P (k, p) then Some p else None)"
  using assms
proof (induction xs)
  case Nil
  show ?case by simp
next
  case (Cons x xs)
  obtain k' p' where x: "x = (k', p')" by (cases x)
  from Cons.prems have fresh: "k' \<notin> fst ` set xs" and d: "distinct (map fst xs)"
    by (simp_all add: x)
  from fresh have none: "map_of xs k' = None"
    by (simp add: map_of_eq_None_iff)
  show ?case
    using Cons.IH [OF d] none by (auto simp: x split: option.splits)
qed

lemma sless_sint: "(a <s b) = (sint a < sint b)"
  by (simp add: word_sless_alt)

lemma cleanup_visit_only_cache:
  assumes "cleanup_visit now k p s = Inr (b, s1)"
  shows "\<exists>c. s1 = s\<lparr>cache := c\<rparr>"
proof (cases "deref s p")
  case (Inl e)
  with assms show ?thesis by (simp add: cleanup_visit_def)
next
  case (Inr it)
  show ?thesis
  proof (cases "ttl s <s time_Sub now (CreatedTime it)")
    case True
    with assms Inr have "s1 = s\<lparr>cache := hax_Del k (cache s)\<rparr>"
      by (simp add: cleanup_visit_def)
    then show ?thesis by blast
  next
    case False
    with assms Inr have "s1 = s\<lparr>cache := cache s\<rparr>"
      by (simp add: cleanup_visit_def)
    then show ?thesis by blast
  qed
qed

lemma cleanup_from_only_cache:
  "hax_ForEach_from (cleanup_visit now) xs s = Inr s' \<Longrightarrow> \<exists>c. s' = s\<lparr>cache := c\<rparr>"
proof (induction xs arbitrary: s)
  case Nil
  then have "s' = s\<lparr>cache := cache s\<rparr>" by simp
  then show ?case by blast
next
  case (Cons x xs)
  obtain k p where x: "x = (k, p)" by (cases x)
  show ?case
  proof (cases "cleanup_visit now k p s")
    case (Inl e)
    with Cons.prems show ?thesis by (simp add: x)
  next
    case (Inr r)
    obtain b s1 where r: "r = (b, s1)" by (cases r)
    from cleanup_visit_only_cache [OF Inr [unfolded r]]
    obtain c1 where s1: "s1 = s\<lparr>cache := c1\<rparr>" by blast
    show ?thesis
    proof (cases b)
      case True
      with Cons.prems Inr r have "hax_ForEach_from (cleanup_visit now) xs s1 = Inr s'"
        by (simp add: x)
      from Cons.IH [OF this] obtain c where "s' = s1\<lparr>cache := c\<rparr>" by blast
      with s1 have "s' = s\<lparr>cache := c\<rparr>" by simp
      then show ?thesis by blast
    next
      case False
      with Cons.prems Inr r have "s' = s1" by (simp add: x)
      with s1 show ?thesis by blast
    qed
  qed
qed

lemma cleanup_only_cache: "cleanup now s = Inr s' \<Longrightarrow> \<exists>c. s' = s\<lparr>cache := c\<rparr>"
  unfolding cleanup_def hax_ForEach_def by (rule cleanup_from_only_cache)

lemma Set_fields:
  "stopCleanup (Set now k v s) = stopCleanup s" "sweeper (Set now k v s) = sweeper s"
  "ttl (Set now k v s) = ttl s" "tickerC (Set now k v s) = tickerC s"
  "heap (Set now k v s) = heap s @ [\<lparr>Value = v, CreatedTime = now\<rparr>]"
  "cache (Set now k v s) = AList.update k (length (heap s)) (cache s)"
  by (simp_all add: Set_def new_item_def hax_Set_def)

lemma Delete_fields:
  "stopCleanup (Delete k s) = stopCleanup s" "sweeper (Delete k s) = sweeper s"
  "ttl (Delete k s) = ttl s" "tickerC (Delete k s) = tickerC s"
  "heap (Delete k s) = heap s"
  "cache (Delete k s) = AList.delete k (cache s)"
  by (simp_all add: Delete_def hax_Del_def)

text \<open>One call of the visitor of \<^verbatim>\<open>cleanup\<close>, and one step of the pass, in closed form.\<close>

lemma cleanup_visit_eq:
  "cleanup_visit now key val s =
     (if val < length (heap s)
      then Inr (True, if expired (ttl s) now (heap s ! val) then Delete key s else s)
      else Inl NilDereference)"
  by (simp add: cleanup_visit_def deref_def expired_def Delete_def)

lemma cleanup_resume_eq:
  "cleanup_resume (Sweeping now ((key, val) # rest)) s =
     (if val < length (heap s)
      then Inr ((if expired (ttl s) now (heap s ! val) then Delete key s else s)
                  \<lparr>sweeper := Sweeping now rest\<rparr>)
      else Inl NilDereference)"
  by (simp add: cleanup_visit_eq)

lemma cleanup_resume_fields:
  assumes "cleanup_resume r s = Inr s'"
  shows "stopCleanup s' = stopCleanup s \<and> ttl s' = ttl s \<and> heap s' = heap s \<and>
         tickerC s' = tickerC s"
proof (cases r)
  case (Sweeping now rest)
  show ?thesis
  proof (cases rest)
    case Nil
    with assms Sweeping show ?thesis by auto
  next
    case (Cons x xs)
    obtain key val where x: "x = (key, val)" by (cases x)
    from assms show ?thesis
      unfolding Sweeping Cons x cleanup_resume_eq
      by (auto simp: Delete_fields split: if_splits)
  qed
qed (use assms in auto)

lemma fire_frame:
  assumes "fire e s = Inr s'"
  shows "stopCleanup s' = (if e = Call_StopCleanup then Closed else stopCleanup s) \<and>
         ttl s' = ttl s"
proof (cases e)
  case (Routine_select c)
  with assms show ?thesis
    by (cases c) (auto simp: cleanup_enter_def split: if_splits)
next
  case Routine_cleanup
  with assms cleanup_resume_fields [of "sweeper s" s s'] show ?thesis
    by simp
qed (use assms in \<open>auto simp: Set_fields Delete_fields Clear_result StopCleanup_def
      startCleanupRoutine_begin_def split: sum.splits if_splits\<close>)

lemma fire_stopCleanup:
  assumes "fire e s = Inr s'"
  shows "stopCleanup s' = (if e = Call_StopCleanup then Closed else stopCleanup s)"
  using fire_frame [OF assms] by (rule conjunct1)

lemma fire_ttl:
  assumes "fire e s = Inr s'"
  shows "ttl s' = ttl s"
  using fire_frame [OF assms] by (rule conjunct2)

lemma run_closed:
  "run es s = Inr s' \<Longrightarrow> stopCleanup s = Closed \<Longrightarrow> stopCleanup s' = Closed"
proof (induction es arbitrary: s)
  case Nil
  then show ?case by simp
next
  case (Cons e es)
  from Cons.prems(1) obtain s1 where f: "fire e s = Inr s1" and r: "run es s1 = Inr s'"
    by (auto split: sum.splits)
  from fire_stopCleanup [OF f] Cons.prems(2) have "stopCleanup s1 = Closed"
    by (simp split: if_splits)
  from Cons.IH [OF r this] show ?case .
qed

lemma run_open:
  "run es s = Inr s' \<Longrightarrow> list_all (\<lambda>e. e \<noteq> Call_StopCleanup) es \<Longrightarrow>
   stopCleanup s' = stopCleanup s"
proof (induction es arbitrary: s)
  case Nil
  then show ?case by simp
next
  case (Cons e es)
  from Cons.prems(1) obtain s1 where f: "fire e s = Inr s1" and r: "run es s1 = Inr s'"
    by (auto split: sum.splits)
  from Cons.prems(2) have e: "e \<noteq> Call_StopCleanup"
    and es: "list_all (\<lambda>e. e \<noteq> Call_StopCleanup) es"
    by simp_all
  from fire_stopCleanup [OF f] e have "stopCleanup s1 = stopCleanup s" by simp
  with Cons.IH [OF r es] show ?case by simp
qed

lemma entry_iff:
  "entry s k p it \<longleftrightarrow> map_of (cache s) k = Some p \<and> p < length (heap s) \<and> heap s ! p = it"
  by (auto simp: entry_def hax_Get_def deref_def)

lemma entry_Get: "entry s k p it \<Longrightarrow> Get k s = Inr (Value it, True)"
  by (simp add: entry_def Get_def)

lemma entry_Set_other:
  assumes "entry s k p it" and "key \<noteq> k"
  shows "entry (Set now key val s) k p it"
proof -
  from assms(1) have get: "map_of (cache s) k = Some p" and p: "p < length (heap s)"
    and it: "heap s ! p = it"
    by (simp_all add: entry_iff)
  from get assms(2) have "map_of (AList.update key (length (heap s)) (cache s)) k = Some p"
    by (simp add: AList.update_conv')
  with p it show ?thesis
    by (simp add: entry_iff Set_fields nth_append)
qed

lemma entry_Delete_other:
  assumes "entry s k p it" and "key \<noteq> k"
  shows "entry (Delete key s) k p it"
  using assms by (simp add: entry_iff hax_Del_def Delete_def AList.delete_conv)

lemma entry_fields:
  "entry (s\<lparr>tickerC := b\<rparr>) k p it = entry s k p it"
  "entry (s\<lparr>sweeper := r\<rparr>) k p it = entry s k p it"
  "entry (s\<lparr>stopCleanup := c\<rparr>) k p it = entry s k p it"
  by (simp_all add: entry_iff)

lemma wf_iff:
  "wf s \<longleftrightarrow> distinct (map fst (cache s)) \<and> (\<forall>(k, p) \<in> set (cache s). p < length (heap s))"
  by (simp add: wf_def list_all_iff)

lemma wf_NewCache: "wf (NewCache d)"
  by (simp add: wf_def NewCache_def hax_New_def)

lemma set_update_subset: "set (AList.update k v al) \<subseteq> insert (k, v) (set al)"
  by (induction al) auto

lemma wf_Set:
  assumes "wf s"
  shows "wf (Set now k v s)"
proof -
  from assms have d: "distinct (map fst (cache s))"
    and v: "\<forall>(k, p) \<in> set (cache s). p < length (heap s)"
    by (simp_all add: wf_iff)
  have "\<forall>(k', p) \<in> set (AList.update k (length (heap s)) (cache s)). p < Suc (length (heap s))"
    using v set_update_subset [of k "length (heap s)" "cache s"] by fastforce
  with d show ?thesis
    by (simp add: wf_iff Set_fields AList.distinct_update)
qed

lemma wf_Delete:
  assumes "wf s"
  shows "wf (Delete k s)"
proof -
  from assms have d: "distinct (map fst (cache s))"
    and v: "\<forall>(k, p) \<in> set (cache s). p < length (heap s)"
    by (simp_all add: wf_iff)
  have "\<forall>(k', p) \<in> set (AList.delete k (cache s)). p < length (heap s)"
    using v by (auto simp: AList.delete_eq)
  with AList.distinct_delete [OF d, of k] show ?thesis
    by (simp add: wf_iff Delete_def hax_Del_def)
qed

lemma wf_filter: "wf s \<Longrightarrow> wf (s\<lparr>cache := filter P (cache s)\<rparr>)"
  by (auto simp: wf_iff distinct_map_filter)

lemma wf_fields:
  "wf (s\<lparr>tickerC := b\<rparr>) = wf s"
  "wf (s\<lparr>sweeper := r\<rparr>) = wf s"
  "wf (s\<lparr>stopCleanup := c\<rparr>) = wf s"
  "wf (s\<lparr>cache := []\<rparr>)"
  by (simp_all add: wf_def)

lemma wf_cleanup_resume:
  assumes "cleanup_resume r s = Inr s'" and "wf s"
  shows "wf s'"
proof (cases r)
  case (Sweeping now rest)
  show ?thesis
  proof (cases rest)
    case Nil
    with assms Sweeping show ?thesis by (auto simp: wf_fields)
  next
    case (Cons x xs)
    obtain key val where x: "x = (key, val)" by (cases x)
    from assms show ?thesis
      unfolding Sweeping Cons x cleanup_resume_eq
      by (auto simp: wf_fields wf_Delete split: if_splits)
  qed
qed (use assms in auto)

lemma wf_fire:
  assumes "fire e s = Inr s'" and "wf s"
  shows "wf s'"
proof (cases e)
  case (Routine_select c)
  with assms show ?thesis
    by (cases c) (auto simp: cleanup_enter_def wf_fields split: if_splits)
next
  case Routine_cleanup
  with assms wf_cleanup_resume [of "sweeper s" s s'] show ?thesis
    by simp
qed (use assms in \<open>auto simp: wf_Set wf_Delete wf_fields Clear_result StopCleanup_def
      startCleanupRoutine_begin_def split: sum.splits if_splits\<close>)

text \<open>
  A run of the steps of a pass with nothing between them does what \<^verbatim>\<open>cleanup\<close> does.
\<close>

lemma run_pass_from:
  "run (replicate (Suc (length rest)) Routine_cleanup) (s\<lparr>sweeper := Sweeping now rest\<rparr>) =
     (case hax_ForEach_from (cleanup_visit now) rest s of
        Inl e \<Rightarrow> Inl e
      | Inr s' \<Rightarrow> Inr (s'\<lparr>sweeper := Selecting\<rparr>))"
proof (induction rest arbitrary: s)
  case Nil
  show ?case by simp
next
  case (Cons x xs)
  obtain key val where x: "x = (key, val)" by (cases x)
  show ?case
  proof (cases "val < length (heap s)")
    case False
    then show ?thesis
      by (simp add: x cleanup_visit_eq del: cleanup_resume.simps)
        (simp add: cleanup_visit_eq)
  next
    case True
    let ?s = "if expired (ttl s) now (heap s ! val) then Delete key s else s"
    have visit: "cleanup_visit now key val s = Inr (True, ?s)"
      using True by (simp add: cleanup_visit_eq)
    have step: "fire Routine_cleanup (s\<lparr>sweeper := Sweeping now (x # xs)\<rparr>) =
        Inr (?s\<lparr>sweeper := Sweeping now xs\<rparr>)"
      using True by (simp add: x cleanup_resume_eq Delete_def del: cleanup_resume.simps)
    have "run (replicate (Suc (length (x # xs))) Routine_cleanup)
        (s\<lparr>sweeper := Sweeping now (x # xs)\<rparr>) =
      run (replicate (Suc (length xs)) Routine_cleanup) (?s\<lparr>sweeper := Sweeping now xs\<rparr>)"
      using step by (simp del: fire.simps)
    also have "\<dots> = (case hax_ForEach_from (cleanup_visit now) xs ?s of
        Inl e \<Rightarrow> Inl e | Inr s' \<Rightarrow> Inr (s'\<lparr>sweeper := Selecting\<rparr>))"
      by (rule Cons.IH)
    also have "\<dots> = (case hax_ForEach_from (cleanup_visit now) (x # xs) s of
        Inl e \<Rightarrow> Inl e | Inr s' \<Rightarrow> Inr (s'\<lparr>sweeper := Selecting\<rparr>))"
      using visit by (simp add: x)
    finally show ?thesis .
  qed
qed

lemma run_pass_alone:
  assumes "sweeper s = Selecting" and "tickerC s"
  shows "run (Routine_select (FromTicker now) # replicate (Suc (length (cache s))) Routine_cleanup) s =
         cleanup now (s\<lparr>tickerC := False\<rparr>)"
proof -
  let ?s = "s\<lparr>tickerC := False\<rparr>"
  have enter: "fire (Routine_select (FromTicker now)) s = Inr (?s\<lparr>sweeper := Sweeping now (cache ?s)\<rparr>)"
    using assms by (simp add: cleanup_enter_def)
  have "run (Routine_select (FromTicker now) # replicate (Suc (length (cache s))) Routine_cleanup) s =
      run (replicate (Suc (length (cache ?s))) Routine_cleanup) (?s\<lparr>sweeper := Sweeping now (cache ?s)\<rparr>)"
    using enter by (simp del: fire.simps)
  also have "\<dots> = (case cleanup now ?s of Inl e \<Rightarrow> Inl e | Inr s' \<Rightarrow> Inr (s'\<lparr>sweeper := Selecting\<rparr>))"
    unfolding cleanup_def hax_ForEach_def by (rule run_pass_from)
  also have "\<dots> = cleanup now ?s"
  proof (cases "cleanup now ?s")
    case (Inl e)
    then show ?thesis by simp
  next
    case (Inr s')
    from cleanup_only_cache [OF Inr] obtain c where "s' = ?s\<lparr>cache := c\<rparr>" by blast
    with assms(1) have "s'\<lparr>sweeper := Selecting\<rparr> = s'" by simp
    with Inr show ?thesis by simp
  qed
  finally show ?thesis .
qed

text \<open>What a run that leaves an entry undisturbed keeps true, step by step.\<close>

lemma threatened_iff:
  "threatened k s \<longleftrightarrow>
     (\<exists>now rest val. sweeper s = Sweeping now rest \<and> (k, val) \<in> set rest \<and>
        (val < length (heap s) \<longrightarrow> expired (ttl s) now (heap s ! val)))"
  by (cases "sweeper s")
    (auto simp: threatened_def list_ex_iff deref_def expired_def split: if_splits)

lemma entry_unique:
  assumes "wf s" and "entry s k p it" and "(k, val) \<in> set (cache s)"
  shows "val = p \<and> p < length (heap s) \<and> heap s ! p = it"
proof -
  from assms(1) have "distinct (map fst (cache s))" by (simp add: wf_def)
  then have "map_of (cache s) k = Some val"
    using assms(3) by (rule map_of_is_SomeI)
  with assms(2) show ?thesis by (simp add: entry_iff)
qed

lemma undisturbed_cleanup_resume:
  assumes "cleanup_resume (sweeper s) s = Inr s'"
    and "entry s k p it" and "\<not> threatened k s"
  shows "entry s' k p it \<and> \<not> threatened k s'"
proof (cases "sweeper s")
  case (Sweeping now rest)
  show ?thesis
  proof (cases rest)
    case Nil
    with assms Sweeping show ?thesis
      by (auto simp: entry_fields threatened_iff)
  next
    case (Cons x xs)
    obtain key val where x: "x = (key, val)" by (cases x)
    from assms(1) have val: "val < length (heap s)"
      and s': "s' = (if expired (ttl s) now (heap s ! val) then Delete key s else s)
                      \<lparr>sweeper := Sweeping now xs\<rparr>"
      unfolding Sweeping Cons x cleanup_resume_eq by (auto split: if_splits)
    have safe: "\<forall>v. (k, v) \<in> set rest \<longrightarrow> v < length (heap s) \<and> \<not> expired (ttl s) now (heap s ! v)"
      using assms(3) Sweeping by (auto simp: threatened_iff)
    have keep: "entry (if expired (ttl s) now (heap s ! val) then Delete key s else s) k p it"
    proof (cases "key = k")
      case True
      with safe Cons x have "\<not> expired (ttl s) now (heap s ! val)" by auto
      with assms(2) show ?thesis by simp
    next
      case False
      with assms(2) show ?thesis by (simp add: entry_Delete_other)
    qed
    have "\<not> threatened k s'"
      using safe Cons unfolding s' threatened_iff
      by (auto simp: Delete_fields split: if_splits)
    with keep show ?thesis
      unfolding s' by (simp add: entry_fields)
  qed
qed (use assms in \<open>auto simp: threatened_iff\<close>)

lemma threatened_fields:
  "threatened k (s\<lparr>tickerC := b\<rparr>) = threatened k s"
  "threatened k (s\<lparr>stopCleanup := c\<rparr>) = threatened k s"
  "\<not> threatened k (s\<lparr>sweeper := Selecting\<rparr>)"
  "\<not> threatened k (s\<lparr>sweeper := Returned\<rparr>)"
  by (simp_all add: threatened_iff)

lemma threatened_Set: "\<not> threatened k s \<Longrightarrow> \<not> threatened k (Set now key val s)"
  by (fastforce simp: threatened_iff Set_fields nth_append)

lemma threatened_Delete: "threatened k (Delete key s) = threatened k s"
  by (simp add: threatened_iff Delete_fields)

lemma undisturbed_fire:
  assumes "fire e s = Inr s'" and "wf s" and "entry s k p it" and "\<not> threatened k s"
    and "undisturbed k (CreatedTime it) (ttl s) e"
  shows "entry s' k p it \<and> \<not> threatened k s'"
proof (cases e)
  case (Call_Set now key val)
  with assms show ?thesis by (auto simp: entry_Set_other threatened_Set)
next
  case (Call_Get key)
  with assms show ?thesis by (auto split: sum.splits)
next
  case (Call_Delete key)
  with assms show ?thesis by (auto simp: entry_Delete_other threatened_Delete)
next
  case Call_Clear
  with assms show ?thesis by simp
next
  case Call_StopCleanup
  with assms show ?thesis
    by (auto simp: StopCleanup_def entry_fields threatened_fields split: if_splits)
next
  case Routine_begin
  with assms show ?thesis
    by (auto simp: startCleanupRoutine_begin_def entry_fields threatened_fields threatened_iff
        split: if_splits)
next
  case (Routine_select c)
  show ?thesis
  proof (cases c)
    case FromStop
    with assms Routine_select show ?thesis
      by (auto simp: entry_fields threatened_fields split: if_splits)
  next
    case (FromTicker now)
    show ?thesis
    proof (cases "sweeper s = Selecting \<and> tickerC s")
      case False
      with assms Routine_select FromTicker show ?thesis by auto
    next
      case True
      with assms(1) have s': "s' = s\<lparr>tickerC := False, sweeper := Sweeping now (cache s)\<rparr>"
        by (simp add: Routine_select FromTicker cleanup_enter_def)
      have fresh: "\<not> expired (ttl s) now it"
        using assms(5) by (simp add: Routine_select FromTicker expired_def)
      have "\<not> threatened k s'"
        unfolding s' threatened_iff
        using entry_unique [OF assms(2,3)] fresh by auto
      with assms(3) show ?thesis
        unfolding s' by (simp add: entry_fields)
    qed
  qed
next
  case Routine_cleanup
  with assms undisturbed_cleanup_resume [of s s' k p it] show ?thesis
    by simp
next
  case Ticker_fires
  with assms show ?thesis
    by (auto simp: entry_fields threatened_fields split: if_splits)
qed

lemma run_undisturbed:
  "run es s = Inr s' \<Longrightarrow> wf s \<Longrightarrow> entry s k p it \<Longrightarrow> \<not> threatened k s \<Longrightarrow>
   list_all (undisturbed k (CreatedTime it) (ttl s)) es \<Longrightarrow> entry s' k p it"
proof (induction es arbitrary: s)
  case Nil
  then show ?case by simp
next
  case (Cons e es)
  from Cons.prems(1) obtain s1 where f: "fire e s = Inr s1" and r: "run es s1 = Inr s'"
    by (auto split: sum.splits)
  from Cons.prems(5) have e: "undisturbed k (CreatedTime it) (ttl s) e"
    and es: "list_all (undisturbed k (CreatedTime it) (ttl s)) es"
    by simp_all
  have 1: "wf s1" by (rule wf_fire [OF f Cons.prems(2)])
  have 2: "entry s1 k p it \<and> \<not> threatened k s1"
    by (rule undisturbed_fire [OF f Cons.prems(2,3,4) e])
  have 3: "list_all (undisturbed k (CreatedTime it) (ttl s1)) es"
    using es fire_ttl [OF f] by simp
  from Cons.IH [OF r 1 _ _ 3] 2 show ?case by blast
qed

text \<open>Every state the program reaches from \<^verbatim>\<open>NewCache\<close> is well-formed.\<close>

lemma wf_run: "run es s = Inr s' \<Longrightarrow> wf s \<Longrightarrow> wf s'"
proof (induction es arbitrary: s)
  case Nil
  then show ?case by simp
next
  case (Cons e es)
  from Cons.prems(1) obtain s1 where f: "fire e s = Inr s1" and r: "run es s1 = Inr s'"
    by (auto split: sum.splits)
  from Cons.IH [OF r wf_fire [OF f Cons.prems(2)]] show ?case .
qed

lemma wf_reachable: "run es (NewCache d) = Inr s \<Longrightarrow> wf s"
  by (rule wf_run [OF _ wf_NewCache])

text \<open>
  \<^verbatim>\<open>Time.Sub\<close> as a number: the difference, cut to the range of a duration. So an
  entry is removed only if it is older than the ttl, and one that is exactly as old
  as the ttl is not.
\<close>

lemma sint_word_of_int_64:
  "- (2 ^ 63) \<le> x \<Longrightarrow> x < 2 ^ 63 \<Longrightarrow> sint (word_of_int x :: 64 word) = x"
  by (simp add: sint_sbintrunc' signed_take_bit_int_eq_self)

lemma sint_time_Sub:
  "sint (time_Sub t u) = max minDuration (min maxDuration (t - u))"
proof -
  define d where "d = t - u"
  have sub: "time_Sub t u =
      (if maxDuration < d then word_of_int maxDuration
       else if d < minDuration then word_of_int minDuration else word_of_int d)"
    by (simp add: time_Sub_def d_def)
  have top: "sint (word_of_int maxDuration :: 64 word) = maxDuration"
    by (rule sint_word_of_int_64) (simp_all add: maxDuration_def)
  have bot: "sint (word_of_int minDuration :: 64 word) = minDuration"
    by (rule sint_word_of_int_64) (simp_all add: minDuration_def)
  have mid: "sint (word_of_int d :: 64 word) = d" if "minDuration \<le> d" "d \<le> maxDuration"
    by (rule sint_word_of_int_64) (use that in \<open>simp_all add: minDuration_def maxDuration_def\<close>)
  have "minDuration \<le> maxDuration"
    by (simp add: minDuration_def maxDuration_def)
  then have "sint (time_Sub t u) = max minDuration (min maxDuration d)"
    unfolding sub using top bot mid by (auto simp: max_def min_def)
  then show ?thesis by (simp add: d_def)
qed

lemma sint_bounds_64: "minDuration \<le> sint (d :: Duration)" "sint (d :: Duration) \<le> maxDuration"
  using sint_ge [of d] sint_lt [of d] by (simp_all add: minDuration_def maxDuration_def)

lemma expired_exact:
  assumes "now - CreatedTime it = sint d"
  shows "\<not> expired d now it"
  using assms sint_bounds_64 [of d] by (simp add: expired_def sless_sint sint_time_Sub)

lemma expired_older:
  assumes "expired d now it"
  shows "sint d < now - CreatedTime it"
  using assms sint_bounds_64 [of d]
  by (simp add: expired_def sless_sint sint_time_Sub max_def min_def split: if_splits)

lemma older_expired:
  assumes "sint d < now - CreatedTime it" and "now - CreatedTime it \<le> maxDuration"
  shows "expired d now it"
  using assms sint_bounds_64 [of d]
  by (simp add: expired_def sless_sint sint_time_Sub max_def min_def split: if_splits)

lemma one_entry_eq:
  "one_entry = \<lparr>cache = [(1, 0)], ttl = 50, stopCleanup = Open,
      heap = [\<lparr>Value = ''a'', CreatedTime = 0\<rparr>], sweeper = Spawned, tickerC = False\<rparr>"
  by (simp add: one_entry_def model_defs)

lemma one_entry_wf: "wf one_entry"
  by (simp add: one_entry_eq wf_def)

lemma one_entry_entry: "entry one_entry 1 0 \<lparr>Value = ''a'', CreatedTime = 0\<rparr>"
  by (simp add: one_entry_eq entry_def hax_Get_def deref_def)

lemma time_Sub_small: "time_Sub 50 0 = 50" "time_Sub 51 0 = 51" "time_Sub 1000000 0 = 1000000"
  by (simp_all add: time_Sub_def maxDuration_def minDuration_def)

lemma example_pass: "50 <s time_Sub 60 0"
  by (simp add: time_Sub_def maxDuration_def minDuration_def sless_sint)

text \<open>
  A pass under way that threatens a key does remove the entry a later \<^verbatim>\<open>Set\<close> writes:
  the visitor tests the object it was handed and then deletes by key. Here the pass
  entered at time 60 has still to visit key 1 with the object of time 0; key 1 is set
  anew at time 100 and found, and the next step of the pass removes it. This is the
  sweep eviction that the write-then-read property leaves out.
\<close>

lemma threatened_entry_evicted:
  "threatened 1 (one_entry\<lparr>sweeper := Sweeping 60 [(1, 0)]\<rparr>) \<and>
   Get 1 (Set 100 1 ''b'' (one_entry\<lparr>sweeper := Sweeping 60 [(1, 0)]\<rparr>)) = Inr (''b'', True) \<and>
   (case run [Routine_cleanup] (Set 100 1 ''b'' (one_entry\<lparr>sweeper := Sweeping 60 [(1, 0)]\<rparr>)) of
      Inl e \<Rightarrow> False
    | Inr s \<Rightarrow> Get 1 s = Inr ([], False))"
  by (simp add: one_entry_eq model_defs threatened_def cleanup_visit_def example_pass
      default_list_def)

subsection \<open>The claims\<close>

text \<open>
  Claim C1. \<^verbatim>\<open>Get\<close> makes no check of age: for a key bound in the map it returns the
  value of the object the key points to, with found = true. It takes no time, and the
  answer stays the same whatever the ttl of the cache and whatever the creation times
  of the objects are, so an entry older than the ttl that no sweep has removed is
  still returned.
\<close>

theorem Get_no_age_check:
  assumes "wf s" and "hax_Get (cache s) k = Some p"
  shows "Get k s = Inr (Value (heap s ! p), True) \<and>
         (\<forall>d f. Get k (s\<lparr>ttl := d, heap := map (CreatedTime_update f) (heap s)\<rparr>) =
            Inr (Value (heap s ! p), True))"
proof -
  from assms(2) have "(k, p) \<in> set (cache s)"
    by (simp add: hax_Get_def map_of_SomeD)
  with assms(1) have "p < length (heap s)"
    by (auto simp: wf_iff)
  with assms(2) show ?thesis
    by (simp add: Get_def deref_def)
qed

text \<open>
  The entry written at time 0 under a ttl of 50 is stale at time 1000000, and found;
  it is found as well under a ttl of 1 and with its creation time moved to -7.
\<close>

theorem Get_no_age_check_witness:
  "wf one_entry \<and> hax_Get (cache one_entry) 1 = Some 0 \<and>
   expired (ttl one_entry) 1000000 (heap one_entry ! 0) \<and>
   Get 1 one_entry = Inr (''a'', True) \<and>
   Get 1 (one_entry\<lparr>ttl := 1, heap := map (CreatedTime_update (\<lambda>t. - 7)) (heap one_entry)\<rparr>) =
     Inr (''a'', True)"
proof -
  have 1: "hax_Get (cache one_entry) 1 = Some 0"
    by (simp add: one_entry_eq hax_Get_def)
  have 2: "expired (ttl one_entry) 1000000 (heap one_entry ! 0)"
    by (simp add: one_entry_eq expired_def time_Sub_small sless_sint)
  have 3: "Value (heap one_entry ! 0) = ''a''"
    by (simp add: one_entry_eq)
  from Get_no_age_check [OF one_entry_wf 1] one_entry_wf 1 2 3 show ?thesis
    by simp
qed

text \<open>
  Claim C2. After \<^verbatim>\<open>Set(k, v)\<close>, \<^verbatim>\<open>Get(k)\<close> returns \<open>(v, true)\<close>: at once, and also
  after any steps of the program among which there is no \<^verbatim>\<open>Delete(k)\<close>, no
  \<^verbatim>\<open>Clear()\<close>, no further \<^verbatim>\<open>Set\<close> of \<open>k\<close>, and no sweep eviction of \<open>k\<close>: the
  goroutine enters no pass at a time when the entry is older than the ttl, and a
  pass that is under way when \<^verbatim>\<open>Set\<close> is called has no visit ahead that would remove
  \<open>k\<close>. Other keys may be set and deleted, the goroutine may begin, tick, go through
  passes step by step between the calls, and stop.
\<close>

theorem Set_then_Get:
  "Get k (Set now k v s) = Inr (v, True) \<and>
   (wf s \<and> \<not> threatened k s \<longrightarrow>
     (\<forall>es s'. list_all (undisturbed k now (ttl s)) es \<and> run es (Set now k v s) = Inr s' \<longrightarrow>
        Get k s' = Inr (v, True)))"
proof -
  let ?it = "\<lparr>Value = v, CreatedTime = now\<rparr>"
  have en: "entry (Set now k v s) k (length (heap s)) ?it"
    by (simp add: entry_iff Set_fields AList.update_conv')
  have "Get k s' = Inr (v, True)"
    if "wf s" and "\<not> threatened k s" and "list_all (undisturbed k now (ttl s)) es"
      and "run es (Set now k v s) = Inr s'"
    for es s'
  proof -
    have "list_all (undisturbed k (CreatedTime ?it) (ttl (Set now k v s))) es"
      using that(3) by (simp add: Set_fields)
    from run_undisturbed [OF that(4) wf_Set [OF that(1)] en threatened_Set [OF that(2)] this]
    show ?thesis by (auto dest: entry_Get)
  qed
  with entry_Get [OF en] show ?thesis by (simp del: Set_fields) blast
qed

text \<open>
  Key 1 is set at time 0 with a ttl of 50. Then the goroutine begins and takes a tick
  at time 50, when the entry of key 1 is exactly as old as the ttl; key 2 is set and
  deleted between the steps of that pass.
\<close>

theorem Set_then_Get_witness:
  "wf (NewCache 50 :: (int, string) program) \<and>
   \<not> threatened 1 (NewCache 50 :: (int, string) program) \<and>
   list_all (undisturbed 1 0 (ttl (NewCache 50 :: (int, string) program)))
     [Routine_begin, Ticker_fires, Routine_select (FromTicker 50), Call_Set 10 (2::int) ''b'',
      Routine_cleanup, Call_Delete 2, Routine_cleanup] \<and>
   run [Routine_begin, Ticker_fires, Routine_select (FromTicker 50), Call_Set 10 2 ''b'',
        Routine_cleanup, Call_Delete 2, Routine_cleanup] (Set 0 1 ''a'' (NewCache 50)) =
     Inr (one_entry\<lparr>heap := heap one_entry @ [\<lparr>Value = ''b'', CreatedTime = 10\<rparr>],
            sweeper := Selecting\<rparr>) \<and>
   Get 1 (one_entry\<lparr>heap := heap one_entry @ [\<lparr>Value = ''b'', CreatedTime = 10\<rparr>],
            sweeper := Selecting\<rparr>) = Inr (''a'', True)"
proof -
  have 1: "wf (NewCache 50 :: (int, string) program)"
    by (rule wf_NewCache)
  have 2: "\<not> threatened 1 (NewCache 50 :: (int, string) program)"
    by (simp add: threatened_def NewCache_def)
  have 3: "list_all (undisturbed 1 0 (ttl (NewCache 50 :: (int, string) program)))
     [Routine_begin, Ticker_fires, Routine_select (FromTicker 50), Call_Set 10 (2::int) ''b'',
      Routine_cleanup, Call_Delete 2, Routine_cleanup]"
    by (simp add: NewCache_def time_Sub_small sless_sint)
  have 4: "run [Routine_begin, Ticker_fires, Routine_select (FromTicker 50), Call_Set 10 2 ''b'',
        Routine_cleanup, Call_Delete 2, Routine_cleanup] (Set 0 1 ''a'' (NewCache 50)) =
     Inr (one_entry\<lparr>heap := heap one_entry @ [\<lparr>Value = ''b'', CreatedTime = 10\<rparr>],
            sweeper := Selecting\<rparr>)"
    by (simp add: one_entry_eq model_defs cleanup_enter_def cleanup_visit_def
        time_Sub_small sless_sint)
  from Set_then_Get [of 1 0 "''a''" "NewCache 50"] 1 2 3 4 show ?thesis
    by blast
qed

text \<open>
  Claim C3. In a pass of \<^verbatim>\<open>cleanup\<close> with captured time \<open>now\<close>, the entry of a key
  is removed exactly when \<^verbatim>\<open>now.Sub(CreatedTime)\<close> is greater than the ttl, as signed
  64-bit numbers. An entry whose age equals the ttl stays in the map, bound to the
  same object, and an entry that is removed is older than the ttl.
\<close>

theorem cleanup_strict_boundary:
  assumes "wf s" and "entry s k p it"
  shows "\<exists>s'. cleanup now s = Inr s' \<and>
           (hax_Get (cache s') k = None \<longleftrightarrow> sint (ttl s) < sint (time_Sub now (CreatedTime it))) \<and>
           (time_Sub now (CreatedTime it) = ttl s \<longrightarrow> entry s' k p it) \<and>
           (now - CreatedTime it = sint (ttl s) \<longrightarrow> entry s' k p it) \<and>
           (hax_Get (cache s') k = None \<longrightarrow> sint (ttl s) < now - CreatedTime it)"
proof -
  let ?s' = "s\<lparr>cache := filter (\<lambda>(k, p). \<not> expired (ttl s) now (heap s ! p)) (cache s)\<rparr>"
  from assms(1) have d: "distinct (map fst (cache s))"
    by (simp add: wf_def)
  from assms(2) have get: "map_of (cache s) k = Some p" and p: "p < length (heap s)"
    and it: "heap s ! p = it"
    by (simp_all add: entry_iff)
  have look: "hax_Get (cache ?s') k = (if expired (ttl s) now it then None else Some p)"
    by (simp add: hax_Get_def map_of_filter_distinct [OF d] get it)
  have keep: "\<not> expired (ttl s) now it \<Longrightarrow> entry ?s' k p it"
    using look p it by (simp add: entry_iff hax_Get_def)
  have 1: "hax_Get (cache ?s') k = None \<longleftrightarrow> sint (ttl s) < sint (time_Sub now (CreatedTime it))"
    using look by (simp add: expired_def sless_sint)
  have 2: "time_Sub now (CreatedTime it) = ttl s \<longrightarrow> entry ?s' k p it"
    using keep by (simp add: expired_def sless_sint)
  have 3: "now - CreatedTime it = sint (ttl s) \<longrightarrow> entry ?s' k p it"
    using keep expired_exact by blast
  have 4: "hax_Get (cache ?s') k = None \<longrightarrow> sint (ttl s) < now - CreatedTime it"
    using look expired_older [of "ttl s" now it] by (simp split: if_splits)
  show ?thesis
  proof (intro exI conjI)
    show "cleanup now s = Inr ?s'" by (rule cleanup_result [OF assms(1)])
  qed (rule 1 2 3 4)+
qed

text \<open>
  An entry written at time 0 with a ttl of 50 survives the pass at time 50, and the
  pass at time 51 removes it.
\<close>

theorem cleanup_strict_boundary_witness:
  "wf one_entry \<and> entry one_entry 1 0 \<lparr>Value = ''a'', CreatedTime = 0\<rparr> \<and>
   time_Sub 50 0 = ttl one_entry \<and> 50 - 0 = sint (ttl one_entry) \<and>
   (\<exists>s'. cleanup 50 one_entry = Inr s' \<and> entry s' 1 0 \<lparr>Value = ''a'', CreatedTime = 0\<rparr> \<and>
      hax_Get (cache s') 1 \<noteq> None) \<and>
   (\<exists>s'. cleanup 51 one_entry = Inr s' \<and> hax_Get (cache s') 1 = None)"
proof -
  have age: "time_Sub 50 (CreatedTime \<lparr>Value = ''a'', CreatedTime = 0\<rparr>) = ttl one_entry"
    "time_Sub 51 (CreatedTime \<lparr>Value = ''a'', CreatedTime = 0\<rparr>) = 51"
    "sint (ttl one_entry) = 50"
    by (simp_all add: time_Sub_small one_entry_eq)
  from cleanup_strict_boundary [OF one_entry_wf one_entry_entry, of 50]
    cleanup_strict_boundary [OF one_entry_wf one_entry_entry, of 51] age
  show ?thesis
    using one_entry_wf one_entry_entry by (auto simp: time_Sub_small)
qed

text \<open>
  Claim C4. One pass of \<^verbatim>\<open>cleanup\<close> with captured time \<open>now\<close> changes the map only:
  it removes the entries whose age at \<open>now\<close> is greater than the ttl, and keeps every
  other entry, in place, bound to the same object. The objects themselves, and with
  them each value and creation time, are not touched.
\<close>

theorem cleanup_frame:
  assumes "wf s"
  shows "\<exists>s'. cleanup now s = Inr s' \<and>
           s' = s\<lparr>cache := filter (\<lambda>(k, p). \<not> expired (ttl s) now (heap s ! p)) (cache s)\<rparr> \<and>
           (\<forall>k. hax_Get (cache s') k =
              (case hax_Get (cache s) k of
                 None \<Rightarrow> None
               | Some p \<Rightarrow> if expired (ttl s) now (heap s ! p) then None else Some p))"
proof -
  from assms have d: "distinct (map fst (cache s))"
    by (simp add: wf_def)
  show ?thesis
    by (simp add: cleanup_result [OF assms] hax_Get_def map_of_filter_distinct [OF d]
        split: option.splits)
qed

text \<open>The pass at time 50 keeps the entry written at time 0; the pass at time 51 removes it.\<close>

theorem cleanup_frame_witness:
  "wf one_entry \<and>
   cleanup 50 one_entry = Inr one_entry \<and>
   cleanup 51 one_entry = Inr (one_entry\<lparr>cache := []\<rparr>)"
proof -
  have "\<not> expired (ttl one_entry) 50 (heap one_entry ! 0)"
    and "expired (ttl one_entry) 51 (heap one_entry ! 0)"
    by (simp_all add: one_entry_eq expired_def time_Sub_small sless_sint)
  moreover have "cache one_entry = [(1, 0)]"
    by (simp add: one_entry_eq)
  ultimately show ?thesis
    using cleanup_frame [OF one_entry_wf, of 50] cleanup_frame [OF one_entry_wf, of 51]
      one_entry_wf
    by auto
qed

text \<open>
  Claim C5. On a cache made by \<^verbatim>\<open>NewCache\<close> on which \<^verbatim>\<open>StopCleanup\<close> has not been
  called, whatever else has happened, the first call of \<^verbatim>\<open>StopCleanup\<close> returns
  normally, having closed the stop channel, so that the stop branch of the goroutine's
  \<^verbatim>\<open>select\<close> can proceed. From then on, whatever else happens, a second call panics
  with the close of a closed channel; it is not ignored.
\<close>

theorem StopCleanup_at_most_once:
  assumes "list_all (\<lambda>e. e \<noteq> Call_StopCleanup) es0"
    and "run es0 (NewCache d) = Inr s"
  shows "StopCleanup s = Inr (s\<lparr>stopCleanup := Closed\<rparr>) \<and>
         can_proceed FromStop (s\<lparr>stopCleanup := Closed\<rparr>) \<and>
         (\<forall>es s'. run es (s\<lparr>stopCleanup := Closed\<rparr>) = Inr s' \<longrightarrow>
            StopCleanup s' = Inl CloseOfClosedChannel)"
proof -
  from run_open [OF assms(2) assms(1)] have "stopCleanup s = Open"
    by (simp add: NewCache_def)
  then have first: "StopCleanup s = Inr (s\<lparr>stopCleanup := Closed\<rparr>)"
    by (simp add: StopCleanup_def)
  have "StopCleanup s' = Inl CloseOfClosedChannel"
    if "run es (s\<lparr>stopCleanup := Closed\<rparr>) = Inr s'" for es s'
    using run_closed [OF that] by (simp add: StopCleanup_def)
  with first show ?thesis by simp
qed

text \<open>The goroutine begins and key 1 is set; then \<^verbatim>\<open>StopCleanup\<close> is called twice.\<close>

theorem StopCleanup_at_most_once_witness:
  "list_all (\<lambda>e. e \<noteq> Call_StopCleanup) [Routine_begin, Call_Set 0 (1::int) ''a''] \<and>
   run [Routine_begin, Call_Set 0 1 ''a''] (NewCache 50) = Inr (one_entry\<lparr>sweeper := Selecting\<rparr>) \<and>
   StopCleanup (one_entry\<lparr>sweeper := Selecting\<rparr>) =
     Inr (one_entry\<lparr>sweeper := Selecting, stopCleanup := Closed\<rparr>) \<and>
   StopCleanup (one_entry\<lparr>sweeper := Selecting, stopCleanup := Closed\<rparr>) =
     Inl CloseOfClosedChannel"
proof -
  have es: "list_all (\<lambda>e. e \<noteq> Call_StopCleanup) [Routine_begin, Call_Set 0 (1::int) ''a'']"
    by simp
  have r: "run [Routine_begin, Call_Set 0 1 ''a''] (NewCache 50) =
      Inr (one_entry\<lparr>sweeper := Selecting\<rparr>)"
    by (simp add: one_entry_eq model_defs)
  note once = StopCleanup_at_most_once [OF es r]
  from once have first: "StopCleanup (one_entry\<lparr>sweeper := Selecting\<rparr>) =
      Inr (one_entry\<lparr>sweeper := Selecting, stopCleanup := Closed\<rparr>)"
    by (rule conjunct1)
  from once have later: "\<forall>es s'.
      run es (one_entry\<lparr>sweeper := Selecting, stopCleanup := Closed\<rparr>) = Inr s' \<longrightarrow>
      StopCleanup s' = Inl CloseOfClosedChannel"
    by (elim conjE)
  have "run [] (one_entry\<lparr>sweeper := Selecting, stopCleanup := Closed\<rparr>) =
      Inr (one_entry\<lparr>sweeper := Selecting, stopCleanup := Closed\<rparr>)"
    by (rule run.simps(1))
  with later have second:
    "StopCleanup (one_entry\<lparr>sweeper := Selecting, stopCleanup := Closed\<rparr>) =
       Inl CloseOfClosedChannel"
    by blast
  from es r first second show ?thesis by (intro conjI)
qed

text \<open>
  Claim C6 says that, when \<^verbatim>\<open>StopCleanup\<close> is called before a sweep has evicted an
  entry, no cleanup pass runs afterwards and \<^verbatim>\<open>Get\<close> finds the entry for good. The
  tests \<^verbatim>\<open>TestCacheStopCleanup\<close> and \<^verbatim>\<open>TestCacheStopCleanupAsync\<close> expect the same.
  The program does not keep to it: \<^verbatim>\<open>StopCleanup\<close> only closes the channel and does
  not wait for the goroutine, the \<^verbatim>\<open>select\<close> gives the stop branch no priority over a
  tick that is waiting, and nothing stops a pass that is under way. Two runs with a
  ttl of 50 and key 1 set at time 0 show it. In the first a tick is waiting when
  \<^verbatim>\<open>StopCleanup\<close> is called, and the goroutine takes the tick after the call. In the
  second the goroutine has entered its pass before the call and has not yet visited
  the entry. In both \<^verbatim>\<open>Get\<close> finds key 1 when \<^verbatim>\<open>StopCleanup\<close> returns, the pass of
  time 60 then removes the entry, and the goroutine leaves by the stop branch only
  afterwards.
\<close>

theorem eviction_after_StopCleanup:
  "run [Routine_begin, Call_Set 0 1 ''a'', Ticker_fires, Call_StopCleanup] (NewCache 50) =
     Inr stopped_with_tick \<and>
   Get 1 stopped_with_tick = Inr (''a'', True) \<and>
   run [Routine_select (FromTicker 60), Routine_cleanup, Routine_cleanup, Routine_select FromStop]
     stopped_with_tick =
     Inr (stopped_with_tick\<lparr>cache := [], sweeper := Returned, tickerC := False\<rparr>) \<and>
   Get 1 (stopped_with_tick\<lparr>cache := [], sweeper := Returned, tickerC := False\<rparr>) =
     Inr ([], False) \<and>
   run [Routine_begin, Call_Set 0 1 ''a'', Ticker_fires, Routine_select (FromTicker 60),
        Call_StopCleanup] (NewCache 50) =
     Inr stopped_in_pass \<and>
   Get 1 stopped_in_pass = Inr (''a'', True) \<and>
   run [Routine_cleanup, Routine_cleanup, Routine_select FromStop] stopped_in_pass =
     Inr (stopped_in_pass\<lparr>cache := [], sweeper := Returned\<rparr>) \<and>
   Get 1 (stopped_in_pass\<lparr>cache := [], sweeper := Returned\<rparr>) = Inr ([], False)"
  by (simp add: stopped_with_tick_def stopped_in_pass_def one_entry_eq model_defs
      cleanup_enter_def cleanup_visit_def example_pass default_list_def)

text \<open>
  Claim C7. \<^verbatim>\<open>Clear\<close>, run with no concurrent writer, returns without a panic and
  leaves the map empty: afterwards \<^verbatim>\<open>Get\<close> answers the zero value and found = false
  for every key, so for every key written before.
\<close>

theorem Clear_empties:
  "Clear s = Inr (s\<lparr>cache := []\<rparr>) \<and> (\<forall>k. Get k (s\<lparr>cache := []\<rparr>) = Inr (default, False))"
  by (simp add: Clear_result Get_def hax_Get_def)

text \<open>
  Claim C8. After \<^verbatim>\<open>Delete(k)\<close>, in any state, \<^verbatim>\<open>Get(k)\<close> answers the zero value and
  found = false. The call never panics, and for a key that is not in the map it
  leaves the state as it was.
\<close>

theorem Delete_post:
  "Get k (Delete k s) = Inr (default, False) \<and>
   fire (Call_Delete k) s = Inr (Delete k s) \<and>
   (hax_Get (cache s) k = None \<longrightarrow> Delete k s = s)"
proof -
  have "map_of (AList.delete k (cache s)) k = None"
    by (simp add: AList.delete_conv)
  moreover have "map_of (cache s) k = None \<longrightarrow> AList.delete k (cache s) = cache s"
    by (simp add: AList.delete_idem map_of_eq_None_iff flip: set_map)
  ultimately show ?thesis
    by (simp add: Get_def Delete_def hax_Get_def hax_Del_def)
qed

text \<open>Key 2 is absent from the one-entry cache; key 1 is present and is removed.\<close>

theorem Delete_post_witness:
  "hax_Get (cache one_entry) 2 = None \<and> Delete 2 one_entry = one_entry \<and>
   Get 1 (Delete 1 one_entry) = Inr ([], False)"
  using Delete_post [of 2 one_entry] Delete_post [of 1 one_entry]
  by (simp add: one_entry_eq hax_Get_def default_list_def)

text \<open>
  Claim C9. Every \<^verbatim>\<open>Set(k, v)\<close> allocates one new object holding \<open>v\<close> and the
  current time, and binds \<open>k\<close> to it. The objects that existed before are the same
  as before (none is written to), the other keys keep their bindings, and what the
  new entry holds does not depend on an earlier entry of \<open>k\<close>. Nothing else of the
  state changes.
\<close>

theorem Set_fresh_entry:
  "heap (Set now k v s) = heap s @ [\<lparr>Value = v, CreatedTime = now\<rparr>] \<and>
   hax_Get (cache (Set now k v s)) = (hax_Get (cache s))(k \<mapsto> length (heap s)) \<and>
   entry (Set now k v s) k (length (heap s)) \<lparr>Value = v, CreatedTime = now\<rparr> \<and>
   Set now k v s = s\<lparr>cache := cache (Set now k v s), heap := heap (Set now k v s)\<rparr>"
  by (simp add: Set_def new_item_def entry_def hax_Get_def hax_Set_def deref_def
      AList.update_conv' fun_eq_iff)

text \<open>
  Claim C10. \<^verbatim>\<open>NewCache\<close> checks nothing: for every duration, zero and negative ones
  too, it returns a cache with that ttl, an empty map, an open stop channel and the
  cleanup goroutine launched. On the cache it returns, the only step that can panic
  is the beginning of the cleanup goroutine, and only for a ttl that is not
  positive; for such a ttl that step does panic.
\<close>

theorem NewCache_no_validation:
  "ttl (NewCache d :: ('k, 'v::default) program) = d \<and>
   cache (NewCache d :: ('k, 'v) program) = [] \<and>
   heap (NewCache d :: ('k, 'v) program) = [] \<and>
   stopCleanup (NewCache d :: ('k, 'v) program) = Open \<and>
   sweeper (NewCache d :: ('k, 'v) program) = Spawned \<and>
   (\<forall>e x. fire e (NewCache d :: ('k, 'v) program) = Inl x \<longrightarrow> e = Routine_begin \<and> sint d \<le> 0) \<and>
   (sint d \<le> 0 \<longrightarrow> fire Routine_begin (NewCache d :: ('k, 'v) program) = Inl NonPositiveInterval)"
proof -
  have "e = Routine_begin \<and> sint d \<le> 0"
    if "fire e (NewCache d :: ('k, 'v) program) = Inl x" for e x
    using that
    by (cases e)
      (auto simp: NewCache_def Get_def hax_Get_def hax_New_def Clear_result StopCleanup_def
        startCleanupRoutine_begin_def split: if_splits)
  then show ?thesis
    by (auto simp: NewCache_def hax_New_def startCleanupRoutine_begin_def)
qed

text \<open>Durations 0 and -1: the cache is built, and the goroutine panics when it begins.\<close>

theorem NewCache_no_validation_witness:
  "sint (0 :: Duration) \<le> 0 \<and>
   fire Routine_begin (NewCache 0 :: (int, string) program) = Inl NonPositiveInterval \<and>
   fire Routine_begin (NewCache (- 1) :: (int, string) program) = Inl NonPositiveInterval"
  using NewCache_no_validation [of "0", where ?'k = int and ?'v = string]
    NewCache_no_validation [of "- 1", where ?'k = int and ?'v = string]
  by (simp del: fire.simps)

end
